theory Spec2Isabelle
  imports Complex_Main "HOL-Library.Multiset" "HOL-Library.FSet" "HOL-Library.Char_ord"
    "HOL-Library.List_Lexorder"
begin

section \<open>Data model\<close>

text \<open>
  The notebooks drive spaCy objects. The model keeps of each object what the notebook
  code reads and writes.

  A lexeme is an entry of \<open>nlp.vocab\<close>: the loop over the vocabulary reads its
  \<open>has_vector\<close>, \<open>is_lower\<close>, \<open>is_alpha\<close>, \<open>vector\<close> and \<open>text\<close>. Vectors are
  NumPy arrays; they are lists of reals here.
\<close>

type_synonym vec = "real list"

record lexeme =
  "text" :: string
  has_vector :: bool
  is_lower :: bool
  is_alpha :: bool
  vector :: vec

text \<open>
  A score is a Python float: a number or NaN. Negation and subtraction give NaN on NaN,
  and every comparison with NaN is false. The numbers are reals here; the rounding of
  the library's arithmetic is part of whatever the cosine function returns.
\<close>

datatype pyfloat = NaN | Num real

fun float_neg :: "pyfloat \<Rightarrow> pyfloat" where
  "float_neg NaN = NaN"
| "float_neg (Num r) = Num (- r)"

fun float_sub :: "pyfloat \<Rightarrow> pyfloat \<Rightarrow> pyfloat" where
  "float_sub (Num a) (Num b) = Num (a - b)"
| "float_sub _ _ = NaN"

fun float_lt :: "pyfloat \<Rightarrow> pyfloat \<Rightarrow> bool" where
  "float_lt (Num a) (Num b) = (a < b)"
| "float_lt _ _ = False"

fun float_le :: "pyfloat \<Rightarrow> pyfloat \<Rightarrow> bool" where
  "float_le (Num a) (Num b) = (a \<le> b)"
| "float_le _ _ = False"

text \<open>The number a float holds; it is read only where the float is not NaN.\<close>

fun num :: "pyfloat \<Rightarrow> real" where
  "num (Num r) = r"
| "num NaN = 0"

text \<open>
  A document is the ordered sequence of its tokens; the attribute \<open>i\<close> of a token is
  its position in that sequence, so the model keeps it as the list position. Of a token
  the code reads \<open>text\<close> and writes \<open>is_sent_start\<close>. A span \<open>doc[a:b]\<close> is the
  half-open range of positions from \<open>a\<close> up to, not including, \<open>b\<close>.
\<close>

record token =
  "text" :: string
  is_sent_start :: bool

type_synonym doc = "token list"

type_synonym span = "nat \<times> nat"

definition span_indices :: "span \<Rightarrow> nat list" where
  "span_indices s = [fst s..<snd s]"

definition span_tokens :: "doc \<Rightarrow> span \<Rightarrow> string list" where
  "span_tokens d s = map text (take (snd s - fst s) (drop (fst s) d))"

text \<open>The Python exceptions the modelled statements can raise.\<close>

datatype error = IndexError | KeyError

text \<open>
  The stop-word notebook works on two pieces of state: the set
  \<open>nlp.Defaults.stop_words\<close> and the lexemes of \<open>nlp.vocab\<close>, of which it reads and
  writes \<open>is_stop\<close>. A lexeme exists once its spelling has been looked up;
  \<open>vocab_is_stop\<close> holds the flag of each lexeme that exists.
\<close>

record nlp =
  stop_words :: "string fset"
  vocab_is_stop :: "string \<rightharpoonup> bool"

section \<open>Segmentation on line breaks\<close>

text \<open>
  \<^verbatim>\<open>
  def split_on_newlines(doc):
      start = 0
      seen_newline = False
      for word in doc:
          if seen_newline:
              yield doc[start:word.i]
              start = word.i
              seen_newline = False
          elif word.text.startswith('\n'): # handles multiple occurrences
              seen_newline = True
      yield doc[start:]      # handles the last group of tokens
  \<close>
  The state of the loop is \<open>start\<close>, \<open>seen_newline\<close> and the spans yielded so far; one
  iteration is \<open>newline_step\<close>, run over the words paired with their positions. The
  generator's result is the list of everything it yields, the last span \<open>doc[start:]\<close>
  included. The notebook hands the generator to \<open>SentenceSegmenter\<close> as its strategy,
  so in this mode its spans are the sentences of the document.
\<close>

definition startswith_newline :: "string \<Rightarrow> bool" where
  "startswith_newline s = (case s of [] \<Rightarrow> False | c # _ \<Rightarrow> c = CHR 0x0A)"

type_synonym seg_state = "nat \<times> bool \<times> span list"

definition newline_step :: "seg_state \<Rightarrow> nat \<times> token \<Rightarrow> seg_state" where
  "newline_step st iw =
     (case st of (start, seen_newline, out) \<Rightarrow>
        (case iw of (i, word) \<Rightarrow>
           if seen_newline then (i, False, out @ [(start, i)])
           else if startswith_newline (text word) then (start, True, out)
           else (start, seen_newline, out)))"

definition newline_loop :: "doc \<Rightarrow> seg_state" where
  "newline_loop d = foldl newline_step (0, False, []) (enumerate 0 d)"

definition split_on_newlines :: "doc \<Rightarrow> span list" where
  "split_on_newlines d =
     (case newline_loop d of (start, seen_newline, out) \<Rightarrow> out @ [(start, length d)])"

text \<open>
  The value of \<open>seen_newline\<close> when the loop reaches the word at position \<open>i\<close>: the
  loop has then run over the first \<open>i\<close> words. It is the flag that makes the word at
  \<open>i\<close> start a sentence in this mode.
\<close>

definition seen_newline_at :: "doc \<Rightarrow> nat \<Rightarrow> bool" where
  "seen_newline_at d i =
     (case newline_loop (take i d) of (start, seen_newline, out) \<Rightarrow> seen_newline)"

section \<open>The semicolon rule\<close>

text \<open>
  \<^verbatim>\<open>
  def set_custom_boundaries(doc):
      for token in doc[:-1]:
          if token.text == ';':
              doc[token.i+1].is_sent_start = True
      return doc
  \<close>
  \<open>doc[j]\<close> raises \<open>IndexError\<close> when \<open>j\<close> is not a position of the document, so
  the assignment is a function that can fail. The loop runs over \<open>doc[:-1]\<close>, every
  token but the last, each with its position; the first failure ends it. The component
  is registered before the parser, so the documents it receives are not parsed yet and
  the assignment is not refused for that reason.
\<close>

definition set_is_sent_start :: "doc \<Rightarrow> nat \<Rightarrow> bool \<Rightarrow> error + doc" where
  "set_is_sent_start d j v =
     (if j < length d then Inr (d[j := (d ! j)\<lparr>is_sent_start := v\<rparr>]) else Inl IndexError)"

fun boundaries_loop :: "(nat \<times> token) list \<Rightarrow> doc \<Rightarrow> error + doc" where
  "boundaries_loop [] d = Inr d"
| "boundaries_loop ((i, token) # rest) d =
     (if text token = '';'' then
        (case set_is_sent_start d (i + 1) True of
           Inl e \<Rightarrow> Inl e
         | Inr d' \<Rightarrow> boundaries_loop rest d')
      else boundaries_loop rest d)"

definition set_custom_boundaries :: "doc \<Rightarrow> error + doc" where
  "set_custom_boundaries d = boundaries_loop (enumerate 0 (butlast d)) d"

section \<open>Sentences from the flags\<close>

text \<open>
  Modelled from the spec: \<open>doc.sents\<close>, which turns the \<open>is_sent_start\<close> flags into
  spans, is spaCy's; the notebook only iterates over it. The spec describes the walk: a
  new span begins at index 0 and at every other index whose token has the flag set; a
  span ends at the start of the next span, the last one at the end of the document; an
  empty token sequence has no span.
\<close>

definition sentence_starts :: "doc \<Rightarrow> nat list" where
  "sentence_starts d =
     (if d = [] then [] else 0 # filter (\<lambda>i. is_sent_start (d ! i)) [1..<length d])"

definition sents :: "doc \<Rightarrow> span list" where
  "sents d = zip (sentence_starts d) (tl (sentence_starts d) @ [length d])"

section \<open>Word vectors\<close>

text \<open>
  \<^verbatim>\<open>
  cosine_similarity = lambda x, y: 1 - spatial.distance.cosine(x, y)

  new_vector = king - man + woman
  computed_similarities = []

  for word in nlp.vocab:
      if word.has_vector:
          if word.is_lower:
              if word.is_alpha:
                  similarity = cosine_similarity(new_vector, word.vector)
                  computed_similarities.append((word, similarity))

  computed_similarities1 = sorted(computed_similarities, key=lambda item:-item[1])
  \<close>
  (the notebook's debugging \<open>print\<close> inside the loop is left out: it changes
  nothing.) \<open>spatial.distance.cosine\<close> is SciPy's: the model takes it as the parameter
  \<open>cosine\<close>, a function to floats, NaN included. The vocabulary is the list of its
  lexemes in iteration order; the three vectors are those the notebook reads from
  \<open>nlp.vocab\<close> before the loop. NumPy adds and subtracts arrays of one shape
  elementwise.

  \<open>sorted\<close> compares the keys with \<open><\<close> and is stable. When every key is a number
  the comparison is a total order and the result is the one stable ascending
  arrangement, which \<open>sort_key\<close> computes. When a key is NaN the comparisons with it are
  all false and what the sort leaves depends on the runs it finds: the list need not be
  ordered. That outcome is the parameter \<open>nan_order\<close>.
\<close>

definition py_sorted :: "('a list \<Rightarrow> 'a list) \<Rightarrow> ('a \<Rightarrow> pyfloat) \<Rightarrow> 'a list \<Rightarrow> 'a list" where
  "py_sorted nan_order key xs =
     (if list_ex (\<lambda>x. key x = NaN) xs then nan_order xs
      else sort_key (\<lambda>x. num (key x)) xs)"

definition vec_sub :: "vec \<Rightarrow> vec \<Rightarrow> vec" where
  "vec_sub x y = map2 (-) x y"

definition vec_add :: "vec \<Rightarrow> vec \<Rightarrow> vec" where
  "vec_add x y = map2 (+) x y"

definition cosine_similarity :: "(vec \<Rightarrow> vec \<Rightarrow> pyfloat) \<Rightarrow> vec \<Rightarrow> vec \<Rightarrow> pyfloat" where
  "cosine_similarity cosine x y = float_sub (Num 1) (cosine x y)"

definition similarity_step ::
  "(vec \<Rightarrow> vec \<Rightarrow> pyfloat) \<Rightarrow> vec \<Rightarrow> (lexeme \<times> pyfloat) list \<Rightarrow> lexeme
     \<Rightarrow> (lexeme \<times> pyfloat) list" where
  "similarity_step cosine new_vector computed word =
     (if has_vector word then
        if is_lower word then
          if is_alpha word then
            computed @ [(word, cosine_similarity cosine new_vector (vector word))]
          else computed
        else computed
      else computed)"

definition computed_similarities ::
  "(vec \<Rightarrow> vec \<Rightarrow> pyfloat) \<Rightarrow> lexeme list \<Rightarrow> vec \<Rightarrow> vec \<Rightarrow> vec
     \<Rightarrow> (lexeme \<times> pyfloat) list" where
  "computed_similarities cosine vocab king man woman =
     (let new_vector = vec_add (vec_sub king man) woman
      in foldl (similarity_step cosine new_vector) [] vocab)"

definition computed_similarities1 ::
  "((lexeme \<times> pyfloat) list \<Rightarrow> (lexeme \<times> pyfloat) list) \<Rightarrow> (vec \<Rightarrow> vec \<Rightarrow> pyfloat)
     \<Rightarrow> lexeme list \<Rightarrow> vec \<Rightarrow> vec \<Rightarrow> vec \<Rightarrow> (lexeme \<times> pyfloat) list" where
  "computed_similarities1 nan_order cosine vocab king man woman =
     py_sorted nan_order (\<lambda>item. float_neg (snd item))
       (computed_similarities cosine vocab king man woman)"

text \<open>
  Modelled from the spec: the cosine distance itself is not in the repository. The spec
  gives the cosine similarity as \<open>dot(a,b) / (norm(a) * norm(b))\<close>; the distance is one
  minus it. With a zero norm the quotient is 0/0, which is NaN in floating point.
\<close>

definition dot :: "vec \<Rightarrow> vec \<Rightarrow> real" where
  "dot x y = sum_list (map2 (*) x y)"

definition spatial_distance_cosine :: "vec \<Rightarrow> vec \<Rightarrow> pyfloat" where
  "spatial_distance_cosine u v =
     (if dot u u = 0 \<or> dot v v = 0 then NaN
      else Num (1 - dot u v / (sqrt (dot u u) * sqrt (dot v v))))"

text \<open>
  The ranking as the spec words it, to compare with the code's: descending by score,
  entries of equal score in ascending lexical order of the word.
\<close>

definition ranked_with_lexical_ties :: "(lexeme \<times> pyfloat) list \<Rightarrow> bool" where
  "ranked_with_lexical_ties r =
     sorted_wrt (\<lambda>a b. float_lt (snd b) (snd a) \<or>
       (snd a = snd b \<and> lexeme.text (fst a) \<le> lexeme.text (fst b))) r"

section \<open>Stop words\<close>

text \<open>
  \<^verbatim>\<open>
  nlp.Defaults.stop_words.add('btw')
  nlp.vocab['btw'].is_stop = True
  \<close>
  and
  \<^verbatim>\<open>
  nlp.Defaults.stop_words.remove('beyond')
  nlp.vocab['beyond'].is_stop = False
  \<close>
  for any word in place of the two literals. \<open>set.remove\<close> raises \<open>KeyError\<close> when
  the word is not in the set, and the assignment after it is then not reached.

  \<open>nlp.vocab[w]\<close> returns the lexeme of \<open>w\<close> and creates it first when it does not
  exist; a new lexeme takes \<open>is_stop\<close> from whether the lower-cased spelling is in the
  stop-word set at that moment. \<open>str.lower\<close> is the parameter \<open>lower\<close>.
  \<open>is_stop lower s w\<close> is what \<open>nlp.vocab[w].is_stop\<close> reports in the state \<open>s\<close>.
\<close>

definition vocab_getitem :: "(string \<Rightarrow> string) \<Rightarrow> string \<Rightarrow> nlp \<Rightarrow> nlp" where
  "vocab_getitem lower w s =
     (case vocab_is_stop s w of
        Some flag \<Rightarrow> s
      | None \<Rightarrow> s\<lparr>vocab_is_stop := (vocab_is_stop s)(w \<mapsto> lower w |\<in>| stop_words s)\<rparr>)"

definition is_stop :: "(string \<Rightarrow> string) \<Rightarrow> nlp \<Rightarrow> string \<Rightarrow> bool" where
  "is_stop lower s w =
     (case vocab_is_stop (vocab_getitem lower w s) w of Some flag \<Rightarrow> flag | None \<Rightarrow> False)"

definition set_is_stop :: "(string \<Rightarrow> string) \<Rightarrow> string \<Rightarrow> bool \<Rightarrow> nlp \<Rightarrow> nlp" where
  "set_is_stop lower w v s =
     (let s' = vocab_getitem lower w s in s'\<lparr>vocab_is_stop := (vocab_is_stop s')(w \<mapsto> v)\<rparr>)"

definition add_stop_word :: "(string \<Rightarrow> string) \<Rightarrow> string \<Rightarrow> nlp \<Rightarrow> nlp" where
  "add_stop_word lower w s =
     set_is_stop lower w True (s\<lparr>stop_words := finsert w (stop_words s)\<rparr>)"

definition remove_stop_word :: "(string \<Rightarrow> string) \<Rightarrow> string \<Rightarrow> nlp \<Rightarrow> error + nlp" where
  "remove_stop_word lower w s =
     (if w |\<in>| stop_words s
      then Inr (set_is_stop lower w False (s\<lparr>stop_words := stop_words s |-| {|w|}\<rparr>))
      else Inl KeyError)"

section \<open>Example inputs\<close>

text \<open>A token as the tokenizer delivers it, with no sentence start marked.\<close>

definition tok :: "string \<Rightarrow> token" where
  "tok s = \<lparr>text = s, is_sent_start = False\<rparr>"

definition newline_example :: doc where
  "newline_example =
     map tok [''This'', ''is'', ''a'', [CHR 0x0A], ''third'', ''sentence'', ''.'']"

text \<open>A lower-case alphabetic lexeme that has a vector.\<close>

definition lex :: "string \<Rightarrow> vec \<Rightarrow> lexeme" where
  "lex s v =
     \<lparr>lexeme.text = s, has_vector = True, is_lower = True, is_alpha = True, vector = v\<rparr>"

text \<open>
  A vocabulary in which two words share one vector, as the notebook's model does (685k
  keys on 20k vectors), listed with \<open>overlord\<close> before \<open>king\<close> as in the notebook's
  output.
\<close>

definition tie_vocab :: "lexeme list" where
  "tie_vocab =
     [lex ''overlord'' [1, 0], lex ''king'' [1, 0], lex ''man'' [0, 1], lex ''woman'' [0, 1]]"

text \<open>
  \<open>str.lower\<close> on ASCII strings, and two states of the stop-word notebook: in
  \<open>small_nlp\<close> the lexeme of \<open>btw\<close> exists with its flag clear; in \<open>the_nlp\<close> no
  lexeme exists yet, and \<open>the_nlp_after\<close> is what adding and removing \<open>The\<close> leaves
  of it.
\<close>

definition ascii_lower :: "string \<Rightarrow> string" where
  "ascii_lower w =
     map (\<lambda>c. case map_of (zip ''ABCDEFGHIJKLMNOPQRSTUVWXYZ'' ''abcdefghijklmnopqrstuvwxyz'') c of
                Some l \<Rightarrow> l
              | None \<Rightarrow> c) w"

definition small_nlp :: nlp where
  "small_nlp = \<lparr>stop_words = {|''a'', ''the''|}, vocab_is_stop = [''btw'' \<mapsto> False]\<rparr>"

definition the_nlp :: nlp where
  "the_nlp = \<lparr>stop_words = {|''a'', ''the''|}, vocab_is_stop = Map.empty\<rparr>"

definition the_nlp_after :: nlp where
  "the_nlp_after = \<lparr>stop_words = {|''a'', ''the''|}, vocab_is_stop = [''The'' \<mapsto> False]\<rparr>"

section \<open>Ranges\<close>

lemma upt_split: "a \<le> b \<Longrightarrow> [0..<a] @ [a..<b] = [0..<b]"
  using upt_add_eq_append[of 0 a "b - a"] by simp

lemma upt_join: "a \<le> b \<Longrightarrow> b \<le> c \<Longrightarrow> [a..<b] @ [b..<c] = [a..<c]"
  using upt_add_eq_append[of a b "c - b"] by simp

lemma span_indices_pair: "span_indices (a, b) = [a..<b]"
  by (simp add: span_indices_def)

section \<open>The loop of the newline segmenter, one word at a time\<close>

lemma newline_loop_Nil: "newline_loop [] = (0, False, [])"
  by (simp add: newline_loop_def)

lemma newline_loop_snoc:
  "newline_loop (ws @ [w]) = newline_step (newline_loop ws) (length ws, w)"
  by (simp add: newline_loop_def enumerate_append_eq)

text \<open>
  What holds of the state after any number of words: the spans yielded so far tile the
  positions below \<open>start\<close>, none is empty, each ends where the next begins, and they
  begin exactly where \<open>seen_newline\<close> was set when the loop arrived.
\<close>

lemma loop_inv:
  "newline_loop d = (start, seen, out) \<Longrightarrow>
     start \<le> length d \<and> (d \<noteq> [] \<longrightarrow> start < length d) \<and>
     concat (map span_indices out) = [0..<start] \<and>
     (\<forall>s \<in> set out. fst s < snd s \<and> snd s \<le> start) \<and>
     map snd out = tl (map fst out @ [start]) \<and>
     map fst out @ [start] = 0 # filter (seen_newline_at d) [Suc 0..<length d]"
proof (induction d arbitrary: start seen out rule: rev_induct)
  case Nil
  then show ?case by (simp add: newline_loop_Nil)
next
  case (snoc w ws)
  obtain start0 seen0 out0 where st: "newline_loop ws = (start0, seen0, out0)"
    by (cases "newline_loop ws") auto
  note IH = snoc.IH[OF st]
  have seen_prefix: "\<And>i. i \<le> length ws \<Longrightarrow> seen_newline_at (ws @ [w]) i = seen_newline_at ws i"
    by (simp add: seen_newline_at_def)
  have seen_last: "seen_newline_at (ws @ [w]) (length ws) = seen0"
    by (simp add: seen_newline_at_def st)
  have filt: "filter (seen_newline_at (ws @ [w])) [Suc 0..<length ws] = filter (seen_newline_at ws) [Suc 0..<length ws]"
    by (rule filter_cong) (auto simp: seen_prefix)
  have starts0: "map fst out0 @ [start0] = 0 # filter (seen_newline_at ws) [Suc 0..<length ws]"
    using IH by simp
  show ?case
  proof (cases seen0)
    case True
    with st snoc.prems have eq: "start = length ws" "out = out0 @ [(start0, length ws)]"
      by (auto simp: newline_loop_snoc newline_step_def)
    have ne: "ws \<noteq> []" using True st by (auto simp: newline_loop_Nil)
    then have lt: "start0 < length ws" using IH by simp
    have pos: "0 < length ws" using ne by simp
    have i1: "concat (map span_indices out0) = [0..<start0]" using IH by simp
    have sp: "span_indices (start0, length ws) = [start0..<length ws]"
      by (simp add: span_indices_def)
    have c1: "concat (map span_indices out) = [0..<start]"
      using lt by (simp add: eq i1 sp upt_split)
    have c2: "\<forall>s \<in> set out. fst s < snd s \<and> snd s \<le> start"
      using IH lt by (auto simp: eq)
    have c3: "map snd out = tl (map fst out @ [start])"
      using IH by (simp add: eq)
    have upt: "[Suc 0..<length (ws @ [w])] = [Suc 0..<length ws] @ [length ws]"
      using pos by (simp add: Suc_leI)
    have c4: "map fst out @ [start] = 0 # filter (seen_newline_at (ws @ [w])) [Suc 0..<length (ws @ [w])]"
      unfolding upt using starts0 True by (simp add: eq filt seen_last)
    show ?thesis using c1 c2 c3 c4 by (simp add: eq)
  next
    case False
    with st snoc.prems have eq: "start = start0" "out = out0"
      by (auto simp: newline_loop_snoc newline_step_def split: if_splits)
    have c4: "map fst out @ [start] = 0 # filter (seen_newline_at (ws @ [w])) [Suc 0..<length (ws @ [w])]"
    proof (cases "ws = []")
      case True
      then show ?thesis using starts0 by (simp add: eq)
    next
      case ne: False
      then have upt: "[Suc 0..<length (ws @ [w])] = [Suc 0..<length ws] @ [length ws]"
        by (simp add: Suc_leI)
      show ?thesis unfolding upt using starts0 False by (simp add: eq filt seen_last)
    qed
    have le: "start0 \<le> length ws" using IH by simp
    show ?thesis using IH c4 le by (simp add: eq)
  qed
qed

section \<open>The walk over the flags\<close>

lemma cover_of_starts:
  "sorted (a # rest) \<Longrightarrow> \<forall>x \<in> set (a # rest). x \<le> n \<Longrightarrow>
   concat (map span_indices (zip (a # rest) (rest @ [n]))) = [a..<n]"
proof (induction rest arbitrary: a)
  case Nil
  then show ?case by (simp add: span_indices_pair)
next
  case (Cons b r)
  have "concat (map span_indices (zip (b # r) (r @ [n]))) = [b..<n]"
    using Cons.prems by (intro Cons.IH) auto
  moreover have "a \<le> b" "b \<le> n" using Cons.prems by auto
  ultimately show ?case by (simp add: span_indices_pair upt_join)
qed

lemma sents_walk:
  assumes "d \<noteq> []"
  shows "sents d \<noteq> [] \<and>
    concat (map span_indices (sents d)) = [0..<length d] \<and>
    (\<forall>k. Suc k < length (sents d) \<longrightarrow> snd (sents d ! k) = fst (sents d ! Suc k)) \<and>
    map fst (sents d) = 0 # filter (\<lambda>i. is_sent_start (d ! i)) [Suc 0..<length d]"
proof -
  define rest where "rest = filter (\<lambda>i. is_sent_start (d ! i)) [Suc 0..<length d]"
  have ss: "sentence_starts d = 0 # rest"
    using assms by (simp add: sentence_starts_def rest_def)
  have S: "sents d = zip (0 # rest) (rest @ [length d])"
    by (simp add: sents_def ss)
  have "sorted rest"
    unfolding rest_def by (rule sorted_wrt_filter) simp
  then have srt: "sorted (0 # rest)"
    by simp
  have bnd: "\<forall>x \<in> set (0 # rest). x \<le> length d"
    by (auto simp: rest_def)
  have cover: "concat (map span_indices (sents d)) = [0..<length d]"
    unfolding S by (rule cover_of_starts[OF srt bnd])
  have starts: "map fst (sents d) = 0 # rest"
    by (simp add: S)
  have ends: "map snd (sents d) = rest @ [length d]"
    by (simp add: S)
  have len: "length (sents d) = Suc (length rest)"
    by (simp add: S)
  have contig: "snd (sents d ! k) = fst (sents d ! Suc k)" if k: "Suc k < length (sents d)" for k
  proof -
    have kr: "k < length rest" using k len by simp
    have "snd (sents d ! k) = map snd (sents d) ! k" using k by simp
    also have "\<dots> = rest ! k" using kr by (simp add: ends nth_append)
    also have "\<dots> = map fst (sents d) ! Suc k" by (simp add: starts)
    also have "\<dots> = fst (sents d ! Suc k)" using k by simp
    finally show ?thesis .
  qed
  have ne: "sents d \<noteq> []" using len by auto
  show ?thesis using ne cover contig starts by (simp add: rest_def)
qed

section \<open>Sentences tile the document\<close>

lemma newline_spans_walk:
  assumes "d \<noteq> []"
  shows "split_on_newlines d \<noteq> [] \<and>
    concat (map span_indices (split_on_newlines d)) = [0..<length d] \<and>
    (\<forall>k. Suc k < length (split_on_newlines d) \<longrightarrow>
       snd (split_on_newlines d ! k) = fst (split_on_newlines d ! Suc k)) \<and>
    fst (hd (split_on_newlines d)) = 0 \<and>
    snd (last (split_on_newlines d)) = length d \<and>
    map fst (split_on_newlines d) = 0 # filter (seen_newline_at d) [Suc 0..<length d]"
proof -
  obtain start seen out where st: "newline_loop d = (start, seen, out)"
    by (cases "newline_loop d") auto
  note inv = loop_inv[OF st]
  have sp: "split_on_newlines d = out @ [(start, length d)]"
    by (simp add: split_on_newlines_def st)
  have le: "start \<le> length d" using inv by simp
  have cover: "concat (map span_indices (split_on_newlines d)) = [0..<length d]"
    using inv le by (simp add: sp span_indices_def upt_split)
  have starts: "map fst (split_on_newlines d) = 0 # filter (seen_newline_at d) [Suc 0..<length d]"
    using inv by (simp add: sp)
  have ends: "map snd (split_on_newlines d) = tl (map fst (split_on_newlines d)) @ [length d]"
    using inv by (simp add: sp)
  have contig: "snd (split_on_newlines d ! k) = fst (split_on_newlines d ! Suc k)"
    if "Suc k < length (split_on_newlines d)" for k
  proof -
    let ?S = "split_on_newlines d"
    have kl: "k < length (tl (map fst ?S))" using that by simp
    have "snd (?S ! k) = map snd ?S ! k" using that by simp
    also have "\<dots> = (tl (map fst ?S) @ [length d]) ! k" by (simp only: ends)
    also have "\<dots> = tl (map fst ?S) ! k" using kl by (simp only: nth_append if_True)
    also have "\<dots> = map fst ?S ! Suc k" using that by (simp add: nth_tl)
    also have "\<dots> = fst (?S ! Suc k)" using that by simp
    finally show ?thesis .
  qed
  have hd0: "fst (hd (split_on_newlines d)) = 0"
    using starts by (cases "split_on_newlines d") auto
  show ?thesis using cover starts contig hd0 by (simp add: sp)
qed

text \<open>
  C1: for every non-empty token sequence the sentences are at least one span, and the
  spans are contiguous half-open ranges that cover the positions of the document exactly
  once, in order; a span begins at index 0 and at every later index whose token is
  flagged as a sentence start. This holds of the spans \<open>split_on_newlines\<close> yields,
  where the flag of a token is \<open>seen_newline\<close> as the loop reaches it, and of the walk
  \<open>sents\<close> over the \<open>is_sent_start\<close> flags.
\<close>

theorem sentences_tile_document:
  assumes "d \<noteq> []"
  shows "(split_on_newlines d \<noteq> [] \<and>
      concat (map span_indices (split_on_newlines d)) = [0..<length d] \<and>
      (\<forall>k. Suc k < length (split_on_newlines d) \<longrightarrow>
         snd (split_on_newlines d ! k) = fst (split_on_newlines d ! Suc k)) \<and>
      fst (hd (split_on_newlines d)) = 0 \<and>
      snd (last (split_on_newlines d)) = length d \<and>
      map fst (split_on_newlines d) = 0 # filter (seen_newline_at d) [Suc 0..<length d]) \<and>
    (sents d \<noteq> [] \<and>
      concat (map span_indices (sents d)) = [0..<length d] \<and>
      (\<forall>k. Suc k < length (sents d) \<longrightarrow> snd (sents d ! k) = fst (sents d ! Suc k)) \<and>
      map fst (sents d) = 0 # filter (\<lambda>i. is_sent_start (d ! i)) [Suc 0..<length d])"
  using newline_spans_walk [OF assms] sents_walk [OF assms] by (rule conjI)

theorem sentences_tile_document_witness:
  "newline_example \<noteq> [] \<and>
   split_on_newlines newline_example = [(0, 4), (4, 7)] \<and>
   concat (map span_indices (split_on_newlines newline_example)) = [0..<7] \<and>
   snd (split_on_newlines newline_example ! 0) = fst (split_on_newlines newline_example ! Suc 0) \<and>
   map fst (split_on_newlines newline_example)
     = 0 # filter (seen_newline_at newline_example) [Suc 0..<7] \<and>
   sents newline_example \<noteq> [] \<and>
   concat (map span_indices (sents newline_example)) = [0..<7]"
proof -
  have ne: "newline_example \<noteq> []"
    by (simp add: newline_example_def)
  have len: "length newline_example = 7"
    by (simp add: newline_example_def)
  have val: "split_on_newlines newline_example = [(0, 4), (4, 7)]"
    by (simp add: newline_example_def split_on_newlines_def newline_loop_def newline_step_def
        startswith_newline_def tok_def)
  from sentences_tile_document [OF ne] len val ne show ?thesis
    by simp
qed

section \<open>Consecutive line breaks in newline mode\<close>

text \<open>
  C7, as the spec states it: repeated trigger tokens collapse into a single pending
  boundary, so every span the mode yields is non-empty. Three trigger tokens in a row
  give two boundaries, with a span made of line breaks only; after two in a row the
  next word starts no span; and for the empty sequence the one span yielded is empty.
\<close>

theorem newline_triggers_do_not_collapse:
  "split_on_newlines (map tok [''a'', [CHR 0x0A], [CHR 0x0A], [CHR 0x0A], ''b''])
     = [(0, 2), (2, 4), (4, 5)] \<and>
   split_on_newlines (map tok [''a'', [CHR 0x0A], [CHR 0x0A], ''b'']) = [(0, 2), (2, 4)] \<and>
   \<not> (\<forall>s \<in> set (split_on_newlines []). fst s < snd s)"
  by (simp add: split_on_newlines_def newline_loop_def newline_step_def
      startswith_newline_def tok_def)

text \<open>
  C7, amended: in newline mode every span yielded for a non-empty token sequence is
  non-empty and lies within the document, also when trigger tokens follow one another.
  The triggers do not collapse: a boundary is pending at position \<open>i + 1\<close> exactly
  when the token at \<open>i\<close> begins with a line break and no boundary was pending at
  \<open>i\<close>; none is pending at 0. So a token reached with a boundary pending begins the
  next span and is not itself a trigger, and the spans begin at 0 and at the positions
  with a boundary pending.
\<close>

theorem newline_spans_nonempty:
  assumes "d \<noteq> []"
  shows "(\<forall>s \<in> set (split_on_newlines d). fst s < snd s \<and> snd s \<le> length d) \<and>
    map fst (split_on_newlines d) = 0 # filter (seen_newline_at d) [Suc 0..<length d] \<and>
    \<not> seen_newline_at d 0 \<and>
    (\<forall>i < length d. seen_newline_at d (Suc i) =
       (\<not> seen_newline_at d i \<and> startswith_newline (text (d ! i))))"
proof -
  obtain start seen out where st: "newline_loop d = (start, seen, out)"
    by (cases "newline_loop d") auto
  note inv = loop_inv[OF st]
  have sp: "split_on_newlines d = out @ [(start, length d)]"
    by (simp add: split_on_newlines_def st)
  have lt: "start < length d" using inv assms by simp
  have ne: "\<forall>s \<in> set (split_on_newlines d). fst s < snd s \<and> snd s \<le> length d"
    using inv lt by (auto simp: sp)
  have starts: "map fst (split_on_newlines d) = 0 # filter (seen_newline_at d) [Suc 0..<length d]"
    using inv by (simp add: sp)
  have zero: "\<not> seen_newline_at d 0"
    by (simp add: seen_newline_at_def newline_loop_Nil)
  have step: "seen_newline_at d (Suc i) =
       (\<not> seen_newline_at d i \<and> startswith_newline (text (d ! i)))" if i: "i < length d" for i
  proof -
    obtain a b c where pre: "newline_loop (take i d) = (a, b, c)"
      by (cases "newline_loop (take i d)") auto
    have now: "seen_newline_at d i = b" by (simp add: seen_newline_at_def pre)
    have "newline_loop (take (Suc i) d) = newline_step (a, b, c) (i, d ! i)"
      using i by (simp add: take_Suc_conv_app_nth newline_loop_snoc pre)
    then have "seen_newline_at d (Suc i) = (\<not> b \<and> startswith_newline (text (d ! i)))"
      by (simp add: seen_newline_at_def newline_step_def)
    then show ?thesis by (simp only: now)
  qed
  show ?thesis using ne starts zero step by blast
qed

theorem newline_spans_nonempty_witness:
  "map tok [''a'', [CHR 0x0A], [CHR 0x0A], [CHR 0x0A], ''b''] \<noteq> [] \<and>
   list_all (\<lambda>s. fst s < snd s \<and> snd s \<le> 5)
     (split_on_newlines (map tok [''a'', [CHR 0x0A], [CHR 0x0A], [CHR 0x0A], ''b''])) \<and>
   seen_newline_at (map tok [''a'', [CHR 0x0A], [CHR 0x0A], [CHR 0x0A], ''b'']) 2 \<and>
   \<not> seen_newline_at (map tok [''a'', [CHR 0x0A], [CHR 0x0A], [CHR 0x0A], ''b'']) 3"
proof -
  let ?d = "map tok [''a'', [CHR 0x0A], [CHR 0x0A], [CHR 0x0A], ''b'']"
  have ne: "?d \<noteq> []" by simp
  from newline_spans_nonempty [OF ne]
  have spans: "\<forall>s \<in> set (split_on_newlines ?d). fst s < snd s \<and> snd s \<le> length ?d"
    and zero: "\<not> seen_newline_at ?d 0"
    and step: "\<forall>i < length ?d. seen_newline_at ?d (Suc i) =
       (\<not> seen_newline_at ?d i \<and> startswith_newline (text (?d ! i)))"
    by blast+
  have s1: "\<not> seen_newline_at ?d (Suc 0)"
    using step zero by (simp add: startswith_newline_def tok_def)
  have s2: "seen_newline_at ?d (Suc (Suc 0))"
    using step s1 by (simp add: startswith_newline_def tok_def)
  have s3: "\<not> seen_newline_at ?d (Suc (Suc (Suc 0)))"
    using step s2 by simp
  have a: "seen_newline_at ?d 2" using s2 by (simp add: numeral_2_eq_2)
  have b: "\<not> seen_newline_at ?d 3" using s3 by (simp add: numeral_3_eq_3)
  have len: "length ?d = 5" by simp
  from spans have "\<forall>s \<in> set (split_on_newlines ?d). fst s < snd s \<and> snd s \<le> 5"
    by (simp only: len)
  then have c: "list_all (\<lambda>s. fst s < snd s \<and> snd s \<le> 5) (split_on_newlines ?d)"
    by (simp only: list_all_iff)
  from ne a b c show ?thesis by blast
qed

section \<open>The empty document\<close>

text \<open>
  C8, as the spec states it: for the empty token sequence the segmenter returns an empty
  sequence of spans. On the empty document the loop of \<open>split_on_newlines\<close> does not
  run and the closing \<open>yield doc[start:]\<close> still does, so the generator yields a span.
\<close>

theorem split_on_newlines_empty_not_empty: "split_on_newlines [] \<noteq> []"
  by (simp add: split_on_newlines_def newline_loop_Nil)

text \<open>
  C8, amended: for the empty token sequence \<open>split_on_newlines\<close> raises nothing and
  yields exactly one span, the empty range from 0 to 0.
\<close>

theorem split_on_newlines_empty: "split_on_newlines [] = [(0, 0)]"
  by (simp add: split_on_newlines_def newline_loop_Nil)

section \<open>The semicolon rule marks the next token and stays in range\<close>

text \<open>
  The loop never fails, and it returns the document with the flag set on exactly the
  tokens that follow a semicolon; every other token is as it was.
\<close>

lemma boundaries_loop_char:
  "ts = [] \<or> i + length ts < length d \<Longrightarrow>
   \<exists>d'. boundaries_loop (enumerate i ts) d = Inr d' \<and> length d' = length d \<and>
     (\<forall>j < length d. d' ! j =
        (if i < j \<and> j \<le> i + length ts \<and> text (ts ! (j - Suc i)) = '';''
         then (d ! j)\<lparr>is_sent_start := True\<rparr> else d ! j))"
proof (induction ts arbitrary: i d)
  case Nil
  then show ?case by auto
next
  case (Cons t rest)
  then have bound: "Suc i + length rest < length d" by simp
  show ?case
  proof (cases "text t = '';''")
    case False
    from Cons.IH[of "Suc i" d] bound
    obtain d' where r: "boundaries_loop (enumerate (Suc i) rest) d = Inr d'" "length d' = length d"
      and nth: "\<forall>j < length d. d' ! j =
        (if Suc i < j \<and> j \<le> Suc i + length rest \<and> text (rest ! (j - Suc (Suc i))) = '';''
         then (d ! j)\<lparr>is_sent_start := True\<rparr> else d ! j)"
      by auto
    have "d' ! j =
        (if i < j \<and> j \<le> i + length (t # rest) \<and> text ((t # rest) ! (j - Suc i)) = '';''
         then (d ! j)\<lparr>is_sent_start := True\<rparr> else d ! j)" if "j < length d" for j
    proof (cases "j = Suc i")
      case True
      then show ?thesis using nth that False by simp
    next
      case ne: False
      then show ?thesis using nth that by (auto simp: nth_Cons' Suc_diff_Suc)
    qed
    then show ?thesis using r False by simp
  next
    case True
    let ?d1 = "d[Suc i := (d ! Suc i)\<lparr>is_sent_start := True\<rparr>]"
    have s1: "set_is_sent_start d (i + 1) True = Inr ?d1"
      using bound by (simp add: set_is_sent_start_def)
    have bound1: "Suc i + length rest < length ?d1" using bound by simp
    from Cons.IH[of "Suc i" ?d1] bound1
    obtain d' where r: "boundaries_loop (enumerate (Suc i) rest) ?d1 = Inr d'" "length d' = length d"
      and nth: "\<forall>j < length d. d' ! j =
        (if Suc i < j \<and> j \<le> Suc i + length rest \<and> text (rest ! (j - Suc (Suc i))) = '';''
         then (?d1 ! j)\<lparr>is_sent_start := True\<rparr> else ?d1 ! j)"
      by auto
    have "d' ! j =
        (if i < j \<and> j \<le> i + length (t # rest) \<and> text ((t # rest) ! (j - Suc i)) = '';''
         then (d ! j)\<lparr>is_sent_start := True\<rparr> else d ! j)" if "j < length d" for j
    proof (cases "j = Suc i")
      case eq: True
      then show ?thesis using nth that True by simp
    next
      case ne: False
      then show ?thesis using nth that by (auto simp: nth_Cons' Suc_diff_Suc)
    qed
    then show ?thesis using r True s1 by simp
  qed
qed

lemma set_custom_boundaries_char:
  "\<exists>d'. set_custom_boundaries d = Inr d' \<and> length d' = length d \<and>
     (\<forall>j < length d. d' ! j =
        (if 0 < j \<and> text (d ! (j - 1)) = '';''
         then (d ! j)\<lparr>is_sent_start := True\<rparr> else d ! j))"
proof -
  have pre: "butlast d = [] \<or> 0 + length (butlast d) < length d"
    by (cases d rule: rev_cases) auto
  from boundaries_loop_char[OF pre]
  obtain d' where r: "boundaries_loop (enumerate 0 (butlast d)) d = Inr d'" "length d' = length d"
    and nth: "\<forall>j < length d. d' ! j =
        (if 0 < j \<and> j \<le> 0 + length (butlast d) \<and> text (butlast d ! (j - Suc 0)) = '';''
         then (d ! j)\<lparr>is_sent_start := True\<rparr> else d ! j)"
    by auto
  have "d' ! j = (if 0 < j \<and> text (d ! (j - 1)) = '';''
         then (d ! j)\<lparr>is_sent_start := True\<rparr> else d ! j)" if j: "j < length d" for j
  proof (cases "0 < j")
    case True
    then have "butlast d ! (j - Suc 0) = d ! (j - 1)" using j by (simp add: nth_butlast)
    moreover have "j \<le> 0 + length (butlast d)" using j by simp
    ultimately show ?thesis using nth j True by simp
  next
    case False
    then show ?thesis using nth j by simp
  qed
  then show ?thesis using r by (auto simp: set_custom_boundaries_def)
qed

text \<open>
  C9: the rule never refers to a neighbour outside the sequence. For every token
  sequence \<open>set_custom_boundaries\<close> returns a document and raises nothing; and when no
  token before the last is a semicolon, whatever the last token is, no flag is updated:
  the document comes back unchanged.
\<close>

theorem set_custom_boundaries_in_range:
  "(\<exists>d'. set_custom_boundaries d = Inr d' \<and> length d' = length d) \<and>
   ((\<forall>i. Suc i < length d \<longrightarrow> text (d ! i) \<noteq> '';'') \<longrightarrow> set_custom_boundaries d = Inr d)"
proof -
  from set_custom_boundaries_char[of d]
  obtain d' where r: "set_custom_boundaries d = Inr d'" and len: "length d' = length d"
    and nth: "\<forall>j < length d. d' ! j =
        (if 0 < j \<and> text (d ! (j - 1)) = '';''
         then (d ! j)\<lparr>is_sent_start := True\<rparr> else d ! j)"
    by blast
  have "d' = d" if none: "\<forall>i. Suc i < length d \<longrightarrow> text (d ! i) \<noteq> '';''"
  proof (rule nth_equalityI)
    show "length d' = length d" by (rule len)
  next
    fix j assume "j < length d'"
    then have j: "j < length d" using len by simp
    have "\<not> (0 < j \<and> text (d ! (j - 1)) = '';'')"
    proof
      assume a: "0 < j \<and> text (d ! (j - 1)) = '';''"
      then have "Suc (j - 1) < length d" using j by simp
      with none have "text (d ! (j - 1)) \<noteq> '';''" by blast
      with a show False by simp
    qed
    moreover have "d' ! j = (if 0 < j \<and> text (d ! (j - 1)) = '';''
         then (d ! j)\<lparr>is_sent_start := True\<rparr> else d ! j)"
      using nth j by blast
    ultimately show "d' ! j = d ! j" by (simp only: if_False)
  qed
  then show ?thesis using r len by auto
qed

theorem set_custom_boundaries_in_range_witness:
  "set_custom_boundaries (map tok [''A'', '';'']) = Inr (map tok [''A'', '';''])"
proof -
  have "\<forall>i. Suc i < length (map tok [''A'', '';'']) \<longrightarrow> text (map tok [''A'', '';''] ! i) \<noteq> '';''"
    by (simp add: tok_def)
  with set_custom_boundaries_in_range [of "map tok [''A'', '';'']"] show ?thesis
    by blast
qed

text \<open>
  C6: under the semicolon rule the token immediately after a token whose text is
  \<open>;\<close> is flagged as a sentence start, for every token sequence; and on the tokens
  \<open>A ; B .\<close> the flags give exactly the two spans \<open>A ;\<close> and \<open>B .\<close>
\<close>

theorem semicolon_starts_sentence:
  "(\<exists>d'. set_custom_boundaries d = Inr d' \<and>
      (\<forall>i. Suc i < length d \<and> text (d ! i) = '';'' \<longrightarrow> is_sent_start (d' ! Suc i))) \<and>
   (\<exists>d'. set_custom_boundaries (map tok [''A'', '';'', ''B'', ''.'']) = Inr d' \<and>
      sents d' = [(0, 2), (2, 4)] \<and>
      map (span_tokens d') (sents d') = [[''A'', '';''], [''B'', ''.'']])"
proof -
  from set_custom_boundaries_char[of d]
  obtain d' where r: "set_custom_boundaries d = Inr d'"
    and nth: "\<forall>j < length d. d' ! j =
        (if 0 < j \<and> text (d ! (j - 1)) = '';''
         then (d ! j)\<lparr>is_sent_start := True\<rparr> else d ! j)"
    by blast
  have "is_sent_start (d' ! Suc i)" if "Suc i < length d \<and> text (d ! i) = '';''" for i
    using nth that by simp
  then have general: "\<exists>d'. set_custom_boundaries d = Inr d' \<and>
      (\<forall>i. Suc i < length d \<and> text (d ! i) = '';'' \<longrightarrow> is_sent_start (d' ! Suc i))"
    using r by blast
  have run: "set_custom_boundaries (map tok [''A'', '';'', ''B'', ''.'']) =
      Inr [tok ''A'', tok '';'', (tok ''B'')\<lparr>is_sent_start := True\<rparr>, tok ''.'']"
    by (simp add: set_custom_boundaries_def set_is_sent_start_def tok_def)
  have sp: "sents [tok ''A'', tok '';'', (tok ''B'')\<lparr>is_sent_start := True\<rparr>, tok ''.'']
      = [(0, 2), (2, 4)]"
    by (simp add: sents_def sentence_starts_def tok_def upt_rec)
  have tx: "map (span_tokens [tok ''A'', tok '';'', (tok ''B'')\<lparr>is_sent_start := True\<rparr>, tok ''.''])
      [(0, 2), (2, 4)] = [[''A'', '';''], [''B'', ''.'']]"
    by (simp add: span_tokens_def tok_def)
  show ?thesis using general run sp tx by simp
qed

theorem semicolon_starts_sentence_witness:
  "\<exists>d'. set_custom_boundaries (map tok [''x'', '';'', ''y'']) = Inr d' \<and> is_sent_start (d' ! 2)"
proof -
  from semicolon_starts_sentence [of "map tok [''x'', '';'', ''y'']"]
  obtain d' where r: "set_custom_boundaries (map tok [''x'', '';'', ''y'']) = Inr d'"
    and all: "\<forall>i. Suc i < length (map tok [''x'', '';'', ''y'']) \<and>
        text (map tok [''x'', '';'', ''y''] ! i) = '';'' \<longrightarrow> is_sent_start (d' ! Suc i)"
    by blast
  have "Suc 1 < length (map tok [''x'', '';'', ''y'']) \<and> text (map tok [''x'', '';'', ''y''] ! 1) = '';''"
    by (simp add: tok_def)
  with all have "is_sent_start (d' ! Suc 1)" by blast
  then have "is_sent_start (d' ! 2)" by (simp add: numeral_2_eq_2)
  with r show ?thesis by blast
qed

section \<open>The ranking of the analogy query\<close>

lemma foldl_similarity_step:
  "foldl (similarity_step cosine t) acc vocab =
     acc @ map (\<lambda>w. (w, float_sub (Num 1) (cosine t (vector w))))
       (filter (\<lambda>w. has_vector w \<and> is_lower w \<and> is_alpha w) vocab)"
  by (induction vocab arbitrary: acc) (auto simp: similarity_step_def cosine_similarity_def)

lemma computed_similarities_scored:
  "computed_similarities cosine vocab king man woman =
     map (\<lambda>w. (w, float_sub (Num 1) (cosine (vec_add (vec_sub king man) woman) (vector w))))
       (filter (\<lambda>w. has_vector w \<and> is_lower w \<and> is_alpha w) vocab)"
  by (simp add: computed_similarities_def foldl_similarity_step)

lemma num_neg_le: "a \<noteq> NaN \<Longrightarrow> b \<noteq> NaN \<Longrightarrow>
    num (float_neg a) \<le> num (float_neg b) \<longleftrightarrow> float_le b a"
  by (cases a; cases b) auto

lemma num_neg_eq: "a \<noteq> NaN \<Longrightarrow> num (float_neg a) = - r \<longleftrightarrow> a = Num r"
  by (cases a) auto

lemma py_sorted_no_nan:
  assumes "\<forall>x \<in> set xs. snd x \<noteq> NaN"
  shows "mset (py_sorted nan_order (\<lambda>item. float_neg (snd item)) xs) = mset xs"
    and "\<forall>i j. i < j \<and> j < length (py_sorted nan_order (\<lambda>item. float_neg (snd item)) xs) \<longrightarrow>
          float_le (snd (py_sorted nan_order (\<lambda>item. float_neg (snd item)) xs ! j))
                   (snd (py_sorted nan_order (\<lambda>item. float_neg (snd item)) xs ! i))"
    and "\<forall>s. filter (\<lambda>item. snd item = s) (py_sorted nan_order (\<lambda>item. float_neg (snd item)) xs)
          = filter (\<lambda>item. snd item = s) xs"
proof -
  let ?key = "\<lambda>item::('a \<times> pyfloat). num (float_neg (snd item))"
  let ?R = "py_sorted nan_order (\<lambda>item. float_neg (snd item)) xs"
  have nonan: "\<not> list_ex (\<lambda>x. float_neg (snd x) = NaN) xs"
  proof
    assume "list_ex (\<lambda>x. float_neg (snd x) = NaN) xs"
    then obtain x where "x \<in> set xs" "float_neg (snd x) = NaN" by (auto simp: list_ex_iff)
    then show False using assms by (cases "snd x") auto
  qed
  have R: "?R = sort_key ?key xs"
    using nonan by (simp add: py_sorted_def)
  show m: "mset ?R = mset xs" by (simp add: R)
  have setR: "set ?R = set xs" by (simp add: R)
  have srt: "sorted (map ?key ?R)" by (simp add: R)
  show "\<forall>i j. i < j \<and> j < length ?R \<longrightarrow> float_le (snd (?R ! j)) (snd (?R ! i))"
  proof (intro allI impI)
    fix i j assume ij: "i < j \<and> j < length ?R"
    have "map ?key ?R ! i \<le> map ?key ?R ! j"
      using srt ij by (intro sorted_nth_mono) auto
    then have le: "?key (?R ! i) \<le> ?key (?R ! j)" using ij by simp
    have "i < length ?R" "j < length ?R" using ij by auto
    then have "?R ! i \<in> set ?R" "?R ! j \<in> set ?R" by (simp_all only: nth_mem)
    then have "?R ! i \<in> set xs" "?R ! j \<in> set xs" by (simp_all only: setR)
    then have "snd (?R ! i) \<noteq> NaN" "snd (?R ! j) \<noteq> NaN" using assms by auto
    then show "float_le (snd (?R ! j)) (snd (?R ! i))" using le by (simp add: num_neg_le)
  qed
  show "\<forall>s. filter (\<lambda>item. snd item = s) ?R = filter (\<lambda>item. snd item = s) xs"
  proof
    fix s
    show "filter (\<lambda>item. snd item = s) ?R = filter (\<lambda>item. snd item = s) xs"
    proof (cases s)
      case NaN
      have "filter (\<lambda>item. snd item = s) ?R = []" using assms setR by (auto simp: NaN filter_empty_conv)
      moreover have "filter (\<lambda>item. snd item = s) xs = []" using assms by (auto simp: NaN filter_empty_conv)
      ultimately show ?thesis by simp
    next
      case (Num r)
      have a: "filter (\<lambda>item. snd item = s) ?R = filter (\<lambda>item. ?key item = - r) ?R"
        by (rule filter_cong) (use assms setR in \<open>auto simp: Num num_neg_eq\<close>)
      have b: "filter (\<lambda>item. snd item = s) xs = filter (\<lambda>item. ?key item = - r) xs"
        by (rule filter_cong) (use assms in \<open>auto simp: Num num_neg_eq\<close>)
      have "filter (\<lambda>item. ?key item = - r) (sort_key ?key xs) = filter (\<lambda>item. ?key item = - r) xs"
        by (rule sort_key_stable)
      then show ?thesis using a b by (simp add: R)
    qed
  qed
qed

lemma tie_ranked:
  "computed_similarities1 nan_order spatial_distance_cosine tie_vocab [1, 0] [0, 1] [0, 1] =
     [(lex ''overlord'' [1, 0], Num 1), (lex ''king'' [1, 0], Num 1),
      (lex ''man'' [0, 1], Num 0), (lex ''woman'' [0, 1], Num 0)]"
  by (simp add: computed_similarities1_def computed_similarities_def similarity_step_def
      cosine_similarity_def spatial_distance_cosine_def dot_def vec_add_def vec_sub_def
      tie_vocab_def lex_def Let_def py_sorted_def)

text \<open>
  C5, as the spec states it: the ranking is sorted descending by score with ties broken
  by ascending lexical order of the word. In \<open>tie_vocab\<close> the words \<open>overlord\<close> and
  \<open>king\<close> have the same vector and so the same score; the code ranks \<open>overlord\<close>
  first, as the vocabulary lists it.
\<close>

theorem ties_not_in_lexical_order:
  "\<not> ranked_with_lexical_ties
     (computed_similarities1 (\<lambda>items. items) spatial_distance_cosine tie_vocab [1, 0] [0, 1] [0, 1])"
  by (simp add: tie_ranked ranked_with_lexical_ties_def lex_def)

text \<open>
  C5, amended: the scored list holds exactly the vocabulary entries that pass the
  has-vector, lower-case and alphabetic filters, each with one minus its cosine distance
  to \<open>king - man + woman\<close>, in vocabulary order. When no score is NaN the result is
  that list sorted descending by score, entries of equal score staying in the order in
  which the vocabulary lists them. When a score is NaN (as for a stored zero vector)
  nothing is stated about the order of the result.
\<close>

theorem computed_similarities1_ranking:
  "let scored = map (\<lambda>w. (w, float_sub (Num 1)
           (cosine (vec_add (vec_sub king man) woman) (vector w))))
         (filter (\<lambda>w. has_vector w \<and> is_lower w \<and> is_alpha w) vocab);
       ranked = computed_similarities1 nan_order cosine vocab king man woman
   in computed_similarities cosine vocab king man woman = scored \<and>
      ((\<forall>item \<in> set scored. snd item \<noteq> NaN) \<longrightarrow>
         mset ranked = mset scored \<and>
         (\<forall>i j. i < j \<and> j < length ranked \<longrightarrow> float_le (snd (ranked ! j)) (snd (ranked ! i))) \<and>
         (\<forall>s. filter (\<lambda>item. snd item = s) ranked = filter (\<lambda>item. snd item = s) scored))"
proof -
  define scored where "scored = map (\<lambda>w. (w, float_sub (Num 1)
           (cosine (vec_add (vec_sub king man) woman) (vector w))))
         (filter (\<lambda>w. has_vector w \<and> is_lower w \<and> is_alpha w) vocab)"
  define ranked where "ranked = computed_similarities1 nan_order cosine vocab king man woman"
  have comp: "computed_similarities cosine vocab king man woman = scored"
    by (simp only: scored_def computed_similarities_scored)
  have rk: "ranked = py_sorted nan_order (\<lambda>item. float_neg (snd item)) scored"
    by (simp only: ranked_def computed_similarities1_def comp)
  have rest: "mset ranked = mset scored \<and>
         (\<forall>i j. i < j \<and> j < length ranked \<longrightarrow> float_le (snd (ranked ! j)) (snd (ranked ! i))) \<and>
         (\<forall>s. filter (\<lambda>item. snd item = s) ranked = filter (\<lambda>item. snd item = s) scored)"
    if nonan: "\<forall>item \<in> set scored. snd item \<noteq> NaN"
    unfolding rk
    by (intro conjI py_sorted_no_nan(1)[OF nonan] py_sorted_no_nan(2)[OF nonan]
        py_sorted_no_nan(3)[OF nonan])
  have imp: "(\<forall>item \<in> set scored. snd item \<noteq> NaN) \<longrightarrow>
         mset ranked = mset scored \<and>
         (\<forall>i j. i < j \<and> j < length ranked \<longrightarrow> float_le (snd (ranked ! j)) (snd (ranked ! i))) \<and>
         (\<forall>s. filter (\<lambda>item. snd item = s) ranked = filter (\<lambda>item. snd item = s) scored)"
  proof (rule impI)
    assume "\<forall>item \<in> set scored. snd item \<noteq> NaN"
    then show "mset ranked = mset scored \<and>
         (\<forall>i j. i < j \<and> j < length ranked \<longrightarrow> float_le (snd (ranked ! j)) (snd (ranked ! i))) \<and>
         (\<forall>s. filter (\<lambda>item. snd item = s) ranked = filter (\<lambda>item. snd item = s) scored)"
      by (rule rest)
  qed
  from comp imp have "computed_similarities cosine vocab king man woman = scored \<and>
      ((\<forall>item \<in> set scored. snd item \<noteq> NaN) \<longrightarrow>
         mset ranked = mset scored \<and>
         (\<forall>i j. i < j \<and> j < length ranked \<longrightarrow> float_le (snd (ranked ! j)) (snd (ranked ! i))) \<and>
         (\<forall>s. filter (\<lambda>item. snd item = s) ranked = filter (\<lambda>item. snd item = s) scored))"
    by (rule conjI)
  then show ?thesis
    unfolding Let_def scored_def[symmetric] ranked_def[symmetric] .
qed

theorem computed_similarities1_ranking_witness:
  "list_all (\<lambda>item. snd item \<noteq> NaN)
     (computed_similarities spatial_distance_cosine tie_vocab [1, 0] [0, 1] [0, 1]) \<and>
   filter (\<lambda>item. snd item = Num 1)
     (computed_similarities1 (\<lambda>items. items) spatial_distance_cosine tie_vocab [1, 0] [0, 1] [0, 1])
   = [(lex ''overlord'' [1, 0], Num 1), (lex ''king'' [1, 0], Num 1)] \<and>
   float_le
     (snd (computed_similarities1 (\<lambda>items. items) spatial_distance_cosine tie_vocab [1, 0] [0, 1] [0, 1] ! 2))
     (snd (computed_similarities1 (\<lambda>items. items) spatial_distance_cosine tie_vocab [1, 0] [0, 1] [0, 1] ! 0))"
proof -
  let ?R = "computed_similarities1 (\<lambda>items. items) spatial_distance_cosine tie_vocab [1, 0] [0, 1] [0, 1]"
  let ?C = "computed_similarities spatial_distance_cosine tie_vocab [1, 0] [0, 1] [0, 1]"
  let ?scored = "map (\<lambda>w. (w, float_sub (Num 1)
           (spatial_distance_cosine (vec_add (vec_sub [1, 0] [0, 1]) [0, 1]) (vector w))))
         (filter (\<lambda>w. has_vector w \<and> is_lower w \<and> is_alpha w) tie_vocab)"
  have sc: "?scored = [(lex ''overlord'' [1, 0], Num 1), (lex ''king'' [1, 0], Num 1),
      (lex ''man'' [0, 1], Num 0), (lex ''woman'' [0, 1], Num 0)]"
    by (simp add: spatial_distance_cosine_def dot_def vec_add_def vec_sub_def tie_vocab_def lex_def)
  have nonan: "\<forall>item \<in> set ?scored. snd item \<noteq> NaN"
    by (simp add: sc)
  from computed_similarities1_ranking
      [of spatial_distance_cosine "[1, 0]" "[0, 1]" "[0, 1]" tie_vocab "\<lambda>items. items"]
  have comp: "?C = ?scored"
    and rest: "(\<forall>item \<in> set ?scored. snd item \<noteq> NaN) \<longrightarrow>
         mset ?R = mset ?scored \<and>
         (\<forall>i j. i < j \<and> j < length ?R \<longrightarrow> float_le (snd (?R ! j)) (snd (?R ! i))) \<and>
         (\<forall>s. filter (\<lambda>item. snd item = s) ?R = filter (\<lambda>item. snd item = s) ?scored)"
    unfolding Let_def by blast+
  from rest nonan
  have ms: "mset ?R = mset ?scored"
    and desc: "\<forall>i j. i < j \<and> j < length ?R \<longrightarrow> float_le (snd (?R ! j)) (snd (?R ! i))"
    and ties: "\<forall>s. filter (\<lambda>item. snd item = s) ?R = filter (\<lambda>item. snd item = s) ?scored"
    by blast+
  have len: "length ?R = 4"
    by (simp add: tie_ranked)
  have a: "list_all (\<lambda>item. snd item \<noteq> NaN) ?C"
    using nonan comp by (simp add: list_all_iff)
  have "filter (\<lambda>item. snd item = Num 1) ?R = filter (\<lambda>item. snd item = Num 1) ?scored"
    using ties by blast
  then have b: "filter (\<lambda>item. snd item = Num 1) ?R
      = [(lex ''overlord'' [1, 0], Num 1), (lex ''king'' [1, 0], Num 1)]"
    by (simp add: sc)
  have "(0::nat) < 2 \<and> 2 < length ?R" using len by simp
  with desc have c: "float_le (snd (?R ! 2)) (snd (?R ! 0))" by blast
  from a b c show ?thesis by blast
qed

section \<open>Adding and removing a stop word\<close>

lemma ascii_lower_The: "ascii_lower ''The'' = ''the''"
  by (simp add: ascii_lower_def)

lemma is_stop_eq:
  "is_stop lower s w = (case vocab_is_stop s w of Some flag \<Rightarrow> flag | None \<Rightarrow> lower w |\<in>| stop_words s)"
  by (simp add: is_stop_def vocab_getitem_def split: option.splits)

lemma set_is_stop_eq:
  "set_is_stop lower w v s = s\<lparr>vocab_is_stop := (vocab_is_stop s)(w \<mapsto> v)\<rparr>"
  by (simp add: set_is_stop_def vocab_getitem_def Let_def split: option.splits)

text \<open>
  C10, as the spec states it: for every word absent from the stop-word set, adding and
  then removing it is an identity on the stop-word state. \<open>The\<close> is absent from the
  set while \<open>the\<close> is in it, so \<open>is_stop\<close> reports true for \<open>The\<close>; after adding
  and removing \<open>The\<close> it reports false.
\<close>

theorem add_then_remove_changes_is_stop:
  "''The'' |\<notin>| stop_words the_nlp \<and>
   is_stop ascii_lower the_nlp ''The'' \<and>
   remove_stop_word ascii_lower ''The'' (add_stop_word ascii_lower ''The'' the_nlp) = Inr the_nlp_after \<and>
   \<not> is_stop ascii_lower the_nlp_after ''The''"
  by (simp add: the_nlp_def the_nlp_after_def is_stop_eq ascii_lower_The remove_stop_word_def
      add_stop_word_def set_is_stop_eq)

text \<open>
  C10, amended: for a word absent from the stop-word set, adding it and setting its flag
  makes \<open>is_stop\<close> report true for it and the set one larger; removing it and clearing
  the flag afterwards succeeds, restores the set and its size, makes \<open>is_stop\<close> report
  false for it and leaves what \<open>is_stop\<close> reports for every other word as before the
  addition. \<open>is_stop\<close> reports for all words what it did before exactly when it
  reported false for the word before; the state itself is the same exactly when the
  lexeme of the word existed with its flag clear.
\<close>

theorem add_then_remove_stop_word:
  assumes "w |\<notin>| stop_words s"
  shows "is_stop lower (add_stop_word lower w s) w \<and>
    fcard (stop_words (add_stop_word lower w s)) = fcard (stop_words s) + 1 \<and>
    (\<exists>s'. remove_stop_word lower w (add_stop_word lower w s) = Inr s' \<and>
       stop_words s' = stop_words s \<and>
       fcard (stop_words s') = fcard (stop_words s) \<and>
       \<not> is_stop lower s' w \<and>
       (\<forall>v. v \<noteq> w \<longrightarrow> is_stop lower s' v = is_stop lower s v) \<and>
       ((\<forall>v. is_stop lower s' v = is_stop lower s v) \<longleftrightarrow> \<not> is_stop lower s w) \<and>
       (s' = s \<longleftrightarrow> vocab_is_stop s w = Some False))"
proof -
  let ?s' = "s\<lparr>vocab_is_stop := (vocab_is_stop s)(w \<mapsto> False)\<rparr>"
  have a: "is_stop lower (add_stop_word lower w s) w"
    by (simp add: add_stop_word_def set_is_stop_eq is_stop_eq)
  have b: "fcard (stop_words (add_stop_word lower w s)) = fcard (stop_words s) + 1"
    using assms by (simp add: add_stop_word_def set_is_stop_eq fcard_finsert_disjoint)
  have restore: "finsert w (stop_words s) |-| {|w|} = stop_words s"
    using assms by auto
  have r: "remove_stop_word lower w (add_stop_word lower w s) = Inr ?s'"
    by (simp add: remove_stop_word_def add_stop_word_def set_is_stop_eq restore)
  have c: "stop_words ?s' = stop_words s" by simp
  have d: "\<not> is_stop lower ?s' w" by (simp add: is_stop_eq)
  have e: "is_stop lower ?s' v = is_stop lower s v" if "v \<noteq> w" for v
    using that by (simp add: is_stop_eq split: option.splits)
  have f: "(\<forall>v. is_stop lower ?s' v = is_stop lower s v) \<longleftrightarrow> \<not> is_stop lower s w"
  proof
    assume "\<forall>v. is_stop lower ?s' v = is_stop lower s v"
    then have "is_stop lower ?s' w = is_stop lower s w" by blast
    with d show "\<not> is_stop lower s w" by simp
  next
    assume n: "\<not> is_stop lower s w"
    show "\<forall>v. is_stop lower ?s' v = is_stop lower s v"
    proof
      fix v show "is_stop lower ?s' v = is_stop lower s v"
        using n d e by (cases "v = w") auto
    qed
  qed
  have g: "?s' = s \<longleftrightarrow> vocab_is_stop s w = Some False"
  proof
    assume "?s' = s"
    then have "vocab_is_stop ?s' w = vocab_is_stop s w" by simp
    then show "vocab_is_stop s w = Some False" by simp
  next
    assume "vocab_is_stop s w = Some False"
    then have "(vocab_is_stop s)(w \<mapsto> False) = vocab_is_stop s" by (intro ext) simp
    then show "?s' = s" by simp
  qed
  show ?thesis using a b r c d e f g by (simp del: fun_upd_apply)
qed

theorem add_then_remove_stop_word_witness:
  "''btw'' |\<notin>| stop_words small_nlp \<and>
   is_stop ascii_lower (add_stop_word ascii_lower ''btw'' small_nlp) ''btw'' \<and>
   fcard (stop_words (add_stop_word ascii_lower ''btw'' small_nlp)) = 3 \<and>
   remove_stop_word ascii_lower ''btw'' (add_stop_word ascii_lower ''btw'' small_nlp) = Inr small_nlp \<and>
   \<not> is_stop ascii_lower small_nlp ''btw''"
proof -
  have absent: "''btw'' |\<notin>| stop_words small_nlp"
    by (simp add: small_nlp_def)
  have created: "vocab_is_stop small_nlp ''btw'' = Some False"
    by (simp add: small_nlp_def)
  have size: "fcard (stop_words small_nlp) = 2"
    by (simp add: small_nlp_def fcard_finsert_disjoint)
  from add_then_remove_stop_word [OF absent, of ascii_lower]
  obtain s' where 1: "is_stop ascii_lower (add_stop_word ascii_lower ''btw'' small_nlp) ''btw''"
    and 2: "fcard (stop_words (add_stop_word ascii_lower ''btw'' small_nlp)) = fcard (stop_words small_nlp) + 1"
    and 3: "remove_stop_word ascii_lower ''btw'' (add_stop_word ascii_lower ''btw'' small_nlp) = Inr s'"
    and 4: "\<not> is_stop ascii_lower s' ''btw''"
    and 5: "s' = small_nlp \<longleftrightarrow> vocab_is_stop small_nlp ''btw'' = Some False"
    by blast
  from 5 created have eq: "s' = small_nlp" by blast
  from absent 1 2 3 4 eq size show ?thesis by simp
qed

end
